theory Spec2Isabelle
  imports Main "HOL-Library.List_Lexorder" "HOL-Library.Char_ord"
    "HOL-Library.Product_Lexorder" "HOL-Library.Sublist"
begin

section \<open>The dependency-graph view of \<^verbatim>\<open>dvc/commands/dag.py\<close>\<close>

text \<open>
  The module builds a label graph from the project's index, restricts it to the scope of a
  target, optionally merges the members of a foreach group, and renders the result. The
  graph values are networkx \<^verbatim>\<open>DiGraph\<close> objects. The embedding keeps every function of
  the module under its own name (without the leading underscore, which an Isabelle name
  cannot start with), with exceptions as the left summand of a sum type and in-place
  mutation as a returned graph.
\<close>

subsection \<open>Exceptions\<close>

datatype error =
    UnboundLocalError   \<comment> \<open>a local variable read before any assignment\<close>
  | IndexError          \<comment> \<open>\<^verbatim>\<open>label[0]\<close> on the empty string\<close>
  | KeyError            \<comment> \<open>a missing dictionary key, a node missing from a graph\<close>
  | NetworkXError       \<comment> \<open>\<^verbatim>\<open>nx.descendants\<close> on a node that is not in the graph\<close>
  | CollectError        \<comment> \<open>raised by the target-collection collaborator\<close>

subsection \<open>Directed graphs, as networkx keeps them\<close>

text \<open>
  A \<^verbatim>\<open>DiGraph\<close> has a node collection that iterates in insertion order and a collection of
  directed edges without multiplicity. Both are lists here; the order of the node list
  is what a \<^verbatim>\<open>for\<close> loop over \<^verbatim>\<open>graph.nodes\<close> sees. networkx maintains that no label
  occurs twice and that both ends of an edge are nodes: \<open>wf_digraph\<close>.
\<close>

record 'a digraph =
  nodes :: "'a list"
  edges :: "('a \<times> 'a) list"

definition wf_digraph :: "'a digraph \<Rightarrow> bool" where
  "wf_digraph g \<longleftrightarrow>
     distinct (nodes g) \<and> distinct (edges g) \<and>
     list_all (\<lambda>e. fst e \<in> set (nodes g) \<and> snd e \<in> set (nodes g)) (edges g)"

definition empty_graph :: "'a digraph" where
  "empty_graph = \<lparr>nodes = [], edges = []\<rparr>"

text \<open>\<^verbatim>\<open>G.add_node(n)\<close>: a node that is already there stays where it is.\<close>

definition add_node :: "'a digraph \<Rightarrow> 'a \<Rightarrow> 'a digraph" where
  "add_node g n = (if n \<in> set (nodes g) then g else g\<lparr>nodes := nodes g @ [n]\<rparr>)"

text \<open>\<^verbatim>\<open>G.add_edge(u, v)\<close>: both ends become nodes when they are not yet.\<close>

definition add_edge :: "'a digraph \<Rightarrow> 'a \<times> 'a \<Rightarrow> 'a digraph" where
  "add_edge g e =
     (let g' = add_node (add_node g (fst e)) (snd e)
      in if e \<in> set (edges g') then g' else g'\<lparr>edges := edges g' @ [e]\<rparr>)"

definition add_nodes_from :: "'a digraph \<Rightarrow> 'a list \<Rightarrow> 'a digraph" where
  "add_nodes_from g ns = fold (\<lambda>n h. add_node h n) ns g"

definition add_edges_from :: "'a digraph \<Rightarrow> ('a \<times> 'a) list \<Rightarrow> 'a digraph" where
  "add_edges_from g es = fold (\<lambda>e h. add_edge h e) es g"

text \<open>
  \<^verbatim>\<open>G.remove_nodes_from(ns)\<close> removes each listed node with every edge at it and ignores
  a listed label that is not a node; \<^verbatim>\<open>G.remove_edges_from(es)\<close> likewise for edges.
  Only membership in the argument matters, so the argument is a set.
\<close>

definition remove_nodes_from :: "'a digraph \<Rightarrow> 'a set \<Rightarrow> 'a digraph" where
  "remove_nodes_from g ns =
     \<lparr>nodes = filter (\<lambda>n. n \<notin> ns) (nodes g),
      edges = filter (\<lambda>e. fst e \<notin> ns \<and> snd e \<notin> ns) (edges g)\<rparr>"

definition remove_edges_from :: "'a digraph \<Rightarrow> ('a \<times> 'a) set \<Rightarrow> 'a digraph" where
  "remove_edges_from g es = g\<lparr>edges := filter (\<lambda>e. e \<notin> es) (edges g)\<rparr>"

subsection \<open>Python sets and strings\<close>

text \<open>
  A Python \<^verbatim>\<open>set\<close> that the code later iterates over is a list without repetition, in
  the order of first insertion. Python leaves the iteration order of a set open; every
  statement below that depends on such a set is about the node set and the edge set of
  a graph, which do not depend on that order.
\<close>

definition set_add :: "'a list \<Rightarrow> 'a \<Rightarrow> 'a list" where
  "set_add s x = (if x \<in> set s then s else s @ [x])"

text \<open>\<^verbatim>\<open>s.split(sep)\<close> for a one-character separator: the pieces between occurrences.\<close>

fun py_split :: "char \<Rightarrow> string \<Rightarrow> string list" where
  "py_split sep [] = [[]]"
| "py_split sep (c # cs) =
     (if c = sep then [] # py_split sep cs
      else (case py_split sep cs of
              [] \<Rightarrow> [[c]]
            | p # ps \<Rightarrow> (c # p) # ps))"

text \<open>\<^verbatim>\<open>"@" in label\<close>, and \<^verbatim>\<open>label.split("@")[0]\<close>, the group key of a label.\<close>

definition has_at :: "string \<Rightarrow> bool" where
  "has_at label \<longleftrightarrow> CHR ''@'' \<in> set label"

definition group_key :: "string \<Rightarrow> string" where
  "group_key label = hd (py_split CHR ''@'' label)"

subsection \<open>The group collapser\<close>

text \<open>
  \<^verbatim>\<open>_collapse_get_nodes\<close>. The loop variable \<^verbatim>\<open>_node\<close> is unbound until the first
  iteration and keeps the last node after the loop; the statement that fills
  \<^verbatim>\<open>new_nodes\<close> stands after the loop, not in it. The loop state is the binding of
  \<^verbatim>\<open>_node\<close> and the set \<^verbatim>\<open>nodes_to_remove\<close>.
\<close>

fun collapse_get_nodes_loop ::
  "string list \<Rightarrow> string option \<times> string list \<Rightarrow> string option \<times> string list" where
  "collapse_get_nodes_loop [] st = st"
| "collapse_get_nodes_loop (n # ns) (cur, nodes_to_remove) =
     (if \<not> has_at n then collapse_get_nodes_loop ns (Some n, nodes_to_remove)
      else collapse_get_nodes_loop ns (Some n, set_add nodes_to_remove n))"

definition collapse_get_nodes :: "string digraph \<Rightarrow> error + (string list \<times> string list)" where
  "collapse_get_nodes graph =
     (case collapse_get_nodes_loop (nodes graph) (None, []) of
        (None, nodes_to_remove) \<Rightarrow> Inl UnboundLocalError
      | (Some n, nodes_to_remove) \<Rightarrow> Inr (set_add [] (group_key n), nodes_to_remove))"

text \<open>\<^verbatim>\<open>_collapse_get_edges\<close>: one step of the loop over the edges, then the loop.\<close>

definition collapse_edge_step ::
  "string \<times> string \<Rightarrow> (string \<times> string) list \<times> (string \<times> string) list
     \<Rightarrow> (string \<times> string) list \<times> (string \<times> string) list" where
  "collapse_edge_step e acc =
     (let e1 = fst e; e2 = snd e;
          new_e1 = (if has_at e1 then group_key e1 else e1);
          new_e2 = (if has_at e2 then group_key e2 else e2);
          replace = (has_at e1 \<or> has_at e2)
      in if replace then (set_add (fst acc) (new_e1, new_e2), set_add (snd acc) (e1, e2))
         else acc)"

definition collapse_get_edges ::
  "string digraph \<Rightarrow> (string \<times> string) list \<times> (string \<times> string) list" where
  "collapse_get_edges graph = fold collapse_edge_step (edges graph) ([], [])"

text \<open>
  The end of a rewritten edge: \<^verbatim>\<open>_new_e1\<close> for \<^verbatim>\<open>_e1\<close>, the group key of a label with the
  separator and the label itself otherwise.
\<close>

definition representative :: "string \<Rightarrow> string" where
  "representative l = (if has_at l then group_key l else l)"

text \<open>\<^verbatim>\<open>_collapse_graph\<close>: the four updates of the graph, in the order of the source.\<close>

definition collapse_graph :: "string digraph \<Rightarrow> error + string digraph" where
  "collapse_graph graph =
     (case collapse_get_nodes graph of
        Inl err \<Rightarrow> Inl err
      | Inr (new_nodes, nodes_to_remove) \<Rightarrow>
          (case collapse_get_edges graph of
             (new_edges, edges_to_remove) \<Rightarrow>
               Inr (remove_nodes_from
                      (add_edges_from
                         (add_nodes_from (remove_edges_from graph (set edges_to_remove)) new_nodes)
                         new_edges)
                      (set nodes_to_remove))))"

subsection \<open>Reachability, as networkx computes it\<close>

text \<open>
  The module calls networkx for three graph searches. A node reached from \<open>s\<close> along at
  least one edge is in the transitive closure of the edge relation at \<open>s\<close>.
  \<^verbatim>\<open>nx.descendants(G, s)\<close> is the set of nodes reachable from \<open>s\<close>, without \<open>s\<close>
  itself, and raises when \<open>s\<close> is not a node of \<open>G\<close>.
\<close>

definition reachable :: "'a digraph \<Rightarrow> 'a \<Rightarrow> 'a set" where
  "reachable g s = (set (edges g))\<^sup>+ `` {s}"

definition descendants :: "'a digraph \<Rightarrow> 'a \<Rightarrow> error + 'a set" where
  "descendants g s =
     (if s \<in> set (nodes g) then Inr (reachable g s - {s}) else Inl NetworkXError)"

text \<open>
  \<^verbatim>\<open>G.to_undirected()\<close>: the same nodes, every edge in both directions. An undirected
  graph is kept as a directed graph whose edge relation is symmetric.
\<close>

definition to_undirected :: "'a digraph \<Rightarrow> 'a digraph" where
  "to_undirected g = \<lparr>nodes = nodes g, edges = remdups (edges g @ map prod.swap (edges g))\<rparr>"

text \<open>
  \<^verbatim>\<open>nx.node_connected_component(U, n)\<close>: the nodes of the component of \<open>n\<close>, \<open>n\<close>
  included; a label that is not a node is a \<^verbatim>\<open>KeyError\<close>.
\<close>

definition component_of :: "'a digraph \<Rightarrow> 'a \<Rightarrow> 'a set" where
  "component_of u n = insert n (reachable u n)"

definition node_connected_component :: "'a digraph \<Rightarrow> 'a \<Rightarrow> error + 'a set" where
  "node_connected_component u n =
     (if n \<in> set (nodes u) then Inr (component_of u n) else Inl KeyError)"

text \<open>
  \<^verbatim>\<open>nx.relabel_nodes(G, mapping)\<close> builds the graph of the relabelled nodes and of the
  edges between the relabelled ends; labels that coincide after relabelling are one node.
  With \<^verbatim>\<open>copy=False\<close> networkx renames the nodes of \<open>G\<close> itself, one after the other;
  for a mapping that sends every new label to itself, as the quoting below does, the
  nodes and edges at the end are the same, and only the order of the nodes can differ.
  \<^verbatim>\<open>G.reverse()\<close> turns every edge around.
\<close>

definition relabel_nodes :: "'a digraph \<Rightarrow> ('a \<Rightarrow> 'b) \<Rightarrow> 'b digraph" where
  "relabel_nodes g mapping =
     add_edges_from (add_nodes_from empty_graph (map mapping (nodes g)))
       (map (map_prod mapping mapping) (edges g))"

definition reverse :: "'a digraph \<Rightarrow> 'a digraph" where
  "reverse g = \<lparr>nodes = nodes g, edges = map prod.swap (edges g)\<rparr>"

definition subgraph :: "'a digraph \<Rightarrow> 'a set \<Rightarrow> 'a digraph" where
  "subgraph g c =
     \<lparr>nodes = filter (\<lambda>n. n \<in> c) (nodes g),
      edges = filter (\<lambda>e. fst e \<in> c \<and> snd e \<in> c) (edges g)\<rparr>"

text \<open>
  \<^verbatim>\<open>nx.weakly_connected_components(G)\<close> walks the nodes in order and yields the component
  of each node that no earlier component holds.
\<close>

fun components :: "'a digraph \<Rightarrow> 'a list \<Rightarrow> 'a set list" where
  "components u [] = []"
| "components u (n # ns) =
     component_of u n # components u (filter (\<lambda>v. v \<notin> component_of u n) ns)"

definition weakly_connected_components :: "'a digraph \<Rightarrow> 'a set list" where
  "weakly_connected_components g = components (to_undirected g) (nodes g)"

text \<open>
  Modelled from the spec: \<^verbatim>\<open>get_pipelines\<close> of \<^verbatim>\<open>dvc.repo.graph\<close>, which the renderers
  import and which is not among the sources. The spec gives its contract: given a graph,
  it returns its weakly-connected components as independent sub-graphs, each with its own
  node and edge set.
\<close>

definition get_pipelines :: "'a digraph \<Rightarrow> 'a digraph list" where
  "get_pipelines g = map (subgraph g) (weakly_connected_components g)"

subsection \<open>The renderers\<close>

definition dquote :: char where
  "dquote = CHR 0x22"

text \<open>
  \<^verbatim>\<open>_quote_label\<close>. \<^verbatim>\<open>label[0]\<close> and \<^verbatim>\<open>label[-1]\<close> raise on the empty string; the label is
  wrapped when neither its first nor its last character is a double quote.
\<close>

definition quote_label :: "string \<Rightarrow> error + string" where
  "quote_label label =
     (case label of
        [] \<Rightarrow> Inl IndexError
      | c # cs \<Rightarrow>
          if c \<noteq> dquote \<and> last label \<noteq> dquote then Inr ([dquote] @ label @ [dquote])
          else Inr label)"

text \<open>
  \<^verbatim>\<open>_show_dot\<close>. \<^verbatim>\<open>relabel_nodes\<close> first builds the dictionary of the new labels, calling
  \<^verbatim>\<open>_quote_label\<close> on every node, so that the first failing call ends the function. With
  \<^verbatim>\<open>copy=False\<close> it then relabels the graph object it was given, and that same object is
  reversed and written. The writer of the dot grammar is a parameter. The result is the
  text together with the graph as the caller finds it after the call.
\<close>

fun first_error :: "(error + 'b) list \<Rightarrow> error option" where
  "first_error [] = None"
| "first_error (Inl err # rs) = Some err"
| "first_error (Inr v # rs) = first_error rs"

definition quoted :: "string \<Rightarrow> string" where
  "quoted n = (case quote_label n of Inr l \<Rightarrow> l | Inl err \<Rightarrow> n)"

definition show_dot ::
  "(string digraph \<Rightarrow> string) \<Rightarrow> string digraph \<Rightarrow> error + (string \<times> string digraph)" where
  "show_dot write_dot graph =
     (case first_error (map quote_label (nodes graph)) of
        Some err \<Rightarrow> Inl err
      | None \<Rightarrow>
          (let graph' = relabel_nodes graph quoted
           in Inr (write_dot (reverse graph'), graph')))"

text \<open>
  A stand-in for the writer of the dot grammar, where an example needs one: it writes
  one statement for each edge of the graph it is given.
\<close>

definition edge_lines :: "string digraph \<Rightarrow> string" where
  "edge_lines g = concat (map (\<lambda>e. fst e @ '' -> '' @ snd e @ '';'') (edges g))"

text \<open>\<^verbatim>\<open>f"node{total_nodes}"\<close> needs the decimal numeral of a natural number.\<close>

fun str_nat :: "nat \<Rightarrow> string" where
  "str_nat n =
     (if n < 10 then [char_of (48 + n)]
      else str_nat (n div 10) @ [char_of (48 + n mod 10)])"

declare str_nat.simps [simp del]

definition node_decl :: "string \<Rightarrow> string \<Rightarrow> string" where
  "node_decl node_id node =
     [CHR 0x0A, CHR 0x09] @ node_id @ ''['' @ [dquote] @ node @ [dquote] @ '']''"

definition arrow_line :: "string \<Rightarrow> string \<Rightarrow> string" where
  "arrow_line id_a id_b = [CHR 0x0A, CHR 0x09] @ id_a @ ''-->'' @ id_b"

text \<open>
  \<^verbatim>\<open>_show_mermaid\<close>. The first inner loop declares the sorted nodes of a pipeline; its
  state is the text so far, the counter \<^verbatim>\<open>total_nodes\<close> and the dictionary
  \<^verbatim>\<open>node_ids\<close>. The second inner loop writes one arrow for each pair \<open>(a, b)\<close> made from
  an edge \<open>(b, a)\<close> of the pipeline; a label missing from \<^verbatim>\<open>node_ids\<close> is a
  \<^verbatim>\<open>KeyError\<close>. The outer loop carries the text and the counter across the pipelines.
\<close>

definition declare_node ::
  "string \<Rightarrow> string \<times> nat \<times> (string \<rightharpoonup> string) \<Rightarrow> string \<times> nat \<times> (string \<rightharpoonup> string)" where
  "declare_node node st =
     (case st of
        (text, total_nodes, node_ids) \<Rightarrow>
          (text @ node_decl (''node'' @ str_nat (total_nodes + 1)) node,
           total_nodes + 1,
           node_ids(node \<mapsto> ''node'' @ str_nat (total_nodes + 1))))"

definition declare_nodes ::
  "string list \<Rightarrow> string \<times> nat \<times> (string \<rightharpoonup> string) \<Rightarrow> string \<times> nat \<times> (string \<rightharpoonup> string)" where
  "declare_nodes ns st = fold declare_node ns st"

fun emit_edges ::
  "(string \<times> string) list \<Rightarrow> (string \<rightharpoonup> string) \<Rightarrow> string \<Rightarrow> error + string" where
  "emit_edges [] node_ids text = Inr text"
| "emit_edges ((a, b) # rest) node_ids text =
     (case node_ids a of
        None \<Rightarrow> Inl KeyError
      | Some id_a \<Rightarrow>
          (case node_ids b of
             None \<Rightarrow> Inl KeyError
           | Some id_b \<Rightarrow> emit_edges rest node_ids (text @ arrow_line id_a id_b)))"

fun show_pipelines :: "string digraph list \<Rightarrow> string \<times> nat \<Rightarrow> error + string" where
  "show_pipelines [] (text, total_nodes) = Inr text"
| "show_pipelines (pipeline # rest) (text, total_nodes) =
     (case declare_nodes (sort (nodes pipeline)) (text, total_nodes, Map.empty) of
        (text', total_nodes', node_ids) \<Rightarrow>
          (case emit_edges (sort (map prod.swap (edges pipeline))) node_ids text' of
             Inl err \<Rightarrow> Inl err
           | Inr text'' \<Rightarrow> show_pipelines rest (text'', total_nodes')))"

definition show_mermaid :: "string digraph \<Rightarrow> bool \<Rightarrow> error + string" where
  "show_mermaid graph markdown =
     (case show_pipelines (get_pipelines graph) (''flowchart TD'', 0) of
        Inl err \<Rightarrow> Inl err
      | Inr text \<Rightarrow>
          if markdown
          then Inr (replicate 3 (CHR 0x60) @ ''mermaid'' @ [CHR 0x0A] @ text @ [CHR 0x0A]
                      @ replicate 3 (CHR 0x60))
          else Inr text)"

subsection \<open>Reading the flowchart text\<close>

text \<open>
  Every piece that \<^verbatim>\<open>_show_mermaid\<close> appends starts with a newline. A piece is a line of
  the text when it occurs there and is followed by a newline or by the end of the text.
  The text shows the edge from \<open>A\<close> to \<open>B\<close> reversed when it declares \<open>A\<close> and \<open>B\<close>
  under identifiers \<^verbatim>\<open>node\<close>\<open>ka\<close> and \<^verbatim>\<open>node\<close>\<open>kb\<close> and has the arrow line from the
  identifier of \<open>B\<close> to the identifier of \<open>A\<close>.
\<close>

definition has_line :: "string \<Rightarrow> string \<Rightarrow> bool" where
  "has_line l buf \<longleftrightarrow> sublist (l @ [CHR 0x0A]) (buf @ [CHR 0x0A])"

definition edge_shown :: "string \<Rightarrow> string \<Rightarrow> string \<Rightarrow> bool" where
  "edge_shown A B buf \<longleftrightarrow>
     (\<exists>ka kb. has_line (node_decl (''node'' @ str_nat ka) A) buf
            \<and> has_line (node_decl (''node'' @ str_nat kb) B) buf
            \<and> has_line (arrow_line (''node'' @ str_nat kb) (''node'' @ str_nat ka)) buf)"

text \<open>
  For the proofs: a text that grows by newline-led pieces, a dictionary all of whose
  entries are declared in the text, and a graph whose edges end at its own nodes.
\<close>

definition extends :: "string \<Rightarrow> string \<Rightarrow> bool" where
  "extends buf buf' \<longleftrightarrow> (\<exists>c. buf' = buf @ c \<and> (c = [] \<or> hd c = CHR 0x0A))"

definition declared :: "(string \<rightharpoonup> string) \<Rightarrow> string \<Rightarrow> bool" where
  "declared ids buf \<longleftrightarrow>
     (\<forall>n i. ids n = Some i \<longrightarrow> (\<exists>k. i = ''node'' @ str_nat k) \<and> has_line (node_decl i n) buf)"

definition closed_graph :: "'a digraph \<Rightarrow> bool" where
  "closed_graph p \<longleftrightarrow> (\<forall>e \<in> set (edges p). fst e \<in> set (nodes p) \<and> snd e \<in> set (nodes p))"

subsection \<open>The project: stages, outputs, index\<close>

text \<open>
  What the module reads of a stage is its \<^verbatim>\<open>addressing\<close> and its \<^verbatim>\<open>outs\<close>; of an
  output, its string form. A node of an index graph is a stage or something else, which
  \<^verbatim>\<open>_relabel\<close> turns into a string with \<^verbatim>\<open>str\<close>. The collaborators of the repository
  (\<^verbatim>\<open>repo.stage.collect_granular\<close>, \<^verbatim>\<open>repo.index.outs_trie.itervalues\<close>,
  \<^verbatim>\<open>repo.fs.parts\<close>) are fields of the records; the first two can raise.
\<close>

datatype out = Output (str_output: string)

record stage =
  addressing :: string
  outs :: "out list"

datatype node = StageNode stage | OtherNode out

record index =
  index_graph :: "node digraph"
  index_outs_graph :: "node digraph"
  outs_trie_itervalues :: "string list \<Rightarrow> error + out list"

record repo =
  stage_collect_granular :: "string \<Rightarrow> error + (stage \<times> string option) list"
  repo_index :: index
  fs_parts :: "string \<Rightarrow> string list"

subsection \<open>Targets, label graph, scope filter, build\<close>

text \<open>
  \<^verbatim>\<open>_collect_targets\<close>. \<^verbatim>\<open>not target\<close> and \<^verbatim>\<open>not path\<close> hold for \<^verbatim>\<open>None\<close> and for the
  empty string. \<^verbatim>\<open>targets.extend(xs)\<close> appends every element that iterating \<open>xs\<close>
  yields: for a list of strings the strings, for a string its characters, each as a
  string of length one.
\<close>

definition extend_str :: "string list \<Rightarrow> string \<Rightarrow> string list" where
  "extend_str targets s = targets @ map (\<lambda>c. [c]) s"

fun collect_outs :: "repo \<Rightarrow> (stage \<times> string option) list \<Rightarrow> string list \<Rightarrow> error + string list" where
  "collect_outs repo [] targets = Inr targets"
| "collect_outs repo ((stage, None) # rest) targets =
     collect_outs repo rest (targets @ map str_output (outs stage))"
| "collect_outs repo ((stage, Some path) # rest) targets =
     (if path = [] then collect_outs repo rest (targets @ map str_output (outs stage))
      else (case outs_trie_itervalues (repo_index repo) (fs_parts repo path) of
              Inl err \<Rightarrow> Inl err
            | Inr found \<Rightarrow>
                collect_outs repo rest
                  (fold (\<lambda>out ts. extend_str ts (str_output out)) found targets)))"

definition collect_targets :: "repo \<Rightarrow> string option \<Rightarrow> bool \<Rightarrow> error + string list" where
  "collect_targets repo target outs_flag =
     (case target of
        None \<Rightarrow> Inr []
      | Some t \<Rightarrow>
          if t = [] then Inr []
          else (case stage_collect_granular repo t of
                  Inl err \<Rightarrow> Inl err
                | Inr pairs \<Rightarrow>
                    if \<not> outs_flag then Inr (map (\<lambda>p. addressing (fst p)) pairs)
                    else collect_outs repo pairs []))"

text \<open>\<^verbatim>\<open>_transform\<close> with its local function \<^verbatim>\<open>_relabel\<close>.\<close>

definition relabel :: "node \<Rightarrow> string" where
  "relabel n = (case n of StageNode s \<Rightarrow> addressing s | OtherNode out \<Rightarrow> str_output out)"

definition transform :: "index \<Rightarrow> bool \<Rightarrow> string digraph" where
  "transform idx outs_flag =
     relabel_nodes (if outs_flag then index_outs_graph idx else index_graph idx) relabel"

text \<open>
  \<^verbatim>\<open>_filter\<close>. The two loops over the targets fill a set, and stop at the first target
  for which networkx raises.
\<close>

fun descendants_loop :: "'a digraph \<Rightarrow> 'a list \<Rightarrow> 'a set \<Rightarrow> error + 'a set" where
  "descendants_loop g [] acc = Inr acc"
| "descendants_loop g (target # rest) acc =
     (case descendants g target of
        Inl err \<Rightarrow> Inl err
      | Inr d \<Rightarrow> descendants_loop g rest (insert target (acc \<union> d)))"

fun connected_loop :: "'a digraph \<Rightarrow> 'a list \<Rightarrow> 'a set \<Rightarrow> error + 'a set" where
  "connected_loop u [] acc = Inr acc"
| "connected_loop u (target # rest) acc =
     (case node_connected_component u target of
        Inl err \<Rightarrow> Inl err
      | Inr c \<Rightarrow> connected_loop u rest (acc \<union> c))"

definition filter_graph :: "string digraph \<Rightarrow> string list \<Rightarrow> bool \<Rightarrow> error + string digraph" where
  "filter_graph graph targets full =
     (if targets = [] then Inr graph
      else
        (case (if \<not> full
               then (case descendants_loop graph targets {} of
                       Inl err \<Rightarrow> Inl err
                     | Inr desc \<Rightarrow> Inr (remove_nodes_from graph (set (nodes graph) - desc)))
               else Inr graph) of
           Inl err \<Rightarrow> Inl err
         | Inr new_graph \<Rightarrow>
             (case connected_loop (to_undirected new_graph) targets {} of
                Inl err \<Rightarrow> Inl err
              | Inr connected \<Rightarrow>
                  Inr (remove_nodes_from new_graph (set (nodes new_graph) - connected)))))"

text \<open>
  \<^verbatim>\<open>_build\<close>. The filter runs first and may raise; with \<^verbatim>\<open>collapse\<close> the returned graph is
  what \<^verbatim>\<open>_collapse_graph\<close> returns for its argument, the variable \<^verbatim>\<open>graph\<close>.
\<close>

definition build :: "repo \<Rightarrow> string option \<Rightarrow> bool \<Rightarrow> bool \<Rightarrow> bool \<Rightarrow> error + string digraph" where
  "build repo target full outs_flag collapse =
     (case collect_targets repo target outs_flag of
        Inl err \<Rightarrow> Inl err
      | Inr targets \<Rightarrow>
          (let graph = transform (repo_index repo) outs_flag
           in (case filter_graph graph targets full of
                 Inl err \<Rightarrow> Inl err
               | Inr filtered_graph \<Rightarrow>
                   if collapse then collapse_graph graph else Inr filtered_graph)))"

subsection \<open>Two small projects\<close>

text \<open>
  A project with the stages \<^verbatim>\<open>A\<close> and \<^verbatim>\<open>B\<close>, unrelated, in which the target \<^verbatim>\<open>A\<close>
  matches the stage \<^verbatim>\<open>A\<close>; and a project with one stage \<^verbatim>\<open>train\<close> whose output
  \<^verbatim>\<open>dir/f\<close> is what the prefix tree holds under \<^verbatim>\<open>dir\<close>, the match of the target \<^verbatim>\<open>dir\<close>.
\<close>

definition stage_A :: stage where
  "stage_A = \<lparr>addressing = ''A'', outs = []\<rparr>"

definition stage_B :: stage where
  "stage_B = \<lparr>addressing = ''B'', outs = []\<rparr>"

definition two_stage_repo :: repo where
  "two_stage_repo =
     \<lparr>stage_collect_granular = (\<lambda>t. if t = ''A'' then Inr [(stage_A, None)] else Inl CollectError),
      repo_index =
        \<lparr>index_graph = \<lparr>nodes = [StageNode stage_A, StageNode stage_B], edges = []\<rparr>,
         index_outs_graph = empty_graph,
         outs_trie_itervalues = (\<lambda>prefix. Inl KeyError)\<rparr>,
      fs_parts = (\<lambda>path. py_split CHR ''/'' path)\<rparr>"

definition stage_train :: stage where
  "stage_train = \<lparr>addressing = ''train'', outs = [Output ''dir/f'']\<rparr>"

definition dir_repo :: repo where
  "dir_repo =
     \<lparr>stage_collect_granular =
        (\<lambda>t. if t = ''dir'' then Inr [(stage_train, Some ''dir'')] else Inl CollectError),
      repo_index =
        \<lparr>index_graph = \<lparr>nodes = [StageNode stage_train], edges = []\<rparr>,
         index_outs_graph = \<lparr>nodes = [OtherNode (Output ''dir/f'')], edges = []\<rparr>,
         outs_trie_itervalues =
           (\<lambda>prefix. if prefix = [''dir''] then Inr [Output ''dir/f''] else Inl KeyError)\<rparr>,
      fs_parts = (\<lambda>path. py_split CHR ''/'' path)\<rparr>"

section \<open>Properties\<close>

subsection \<open>Graph updates, seen as sets\<close>

lemma set_set_add [simp]: "set (set_add s x) = insert x (set s)"
  by (auto simp: set_add_def)

lemma distinct_set_add [simp]: "distinct s \<Longrightarrow> distinct (set_add s x)"
  by (simp add: set_add_def)

lemma py_split_nonempty [simp]: "py_split sep s \<noteq> []"
  by (induction s) (auto split: list.splits)

lemma hd_py_split: "hd (py_split sep s) = takeWhile (\<lambda>c. c \<noteq> sep) s"
proof (induction s)
  case Nil
  show ?case by simp
next
  case (Cons c cs)
  then show ?case by (cases "py_split sep cs") auto
qed

lemma group_key_takeWhile: "group_key l = takeWhile (\<lambda>c. c \<noteq> CHR ''@'') l"
  by (simp add: group_key_def hd_py_split)

lemma group_key_no_at [simp]: "\<not> has_at (group_key l)"
  by (auto simp: has_at_def group_key_takeWhile dest: set_takeWhileD)

lemma group_key_id: "\<not> has_at l \<Longrightarrow> group_key l = l"
  by (auto simp: has_at_def group_key_takeWhile)

lemma nodes_add_node [simp]: "set (nodes (add_node g n)) = insert n (set (nodes g))"
  by (auto simp: add_node_def)

lemma edges_add_node [simp]: "edges (add_node g n) = edges g"
  by (simp add: add_node_def)

lemma nodes_add_edge [simp]:
  "set (nodes (add_edge g e)) = insert (fst e) (insert (snd e) (set (nodes g)))"
  by (auto simp: add_edge_def Let_def)

lemma edges_add_edge [simp]: "set (edges (add_edge g e)) = insert e (set (edges g))"
  by (auto simp: add_edge_def Let_def)

lemma nodes_add_nodes_from [simp]:
  "set (nodes (add_nodes_from g ns)) = set ns \<union> set (nodes g)"
  unfolding add_nodes_from_def by (induction ns arbitrary: g) auto

lemma edges_add_nodes_from [simp]: "edges (add_nodes_from g ns) = edges g"
  unfolding add_nodes_from_def by (induction ns arbitrary: g) auto

lemma nodes_add_edges_from [simp]:
  "set (nodes (add_edges_from g es)) = fst ` set es \<union> snd ` set es \<union> set (nodes g)"
  unfolding add_edges_from_def by (induction es arbitrary: g) auto

lemma edges_add_edges_from [simp]:
  "set (edges (add_edges_from g es)) = set es \<union> set (edges g)"
  unfolding add_edges_from_def by (induction es arbitrary: g) auto

lemma nodes_remove_nodes_from [simp]:
  "set (nodes (remove_nodes_from g ns)) = set (nodes g) - ns"
  by (auto simp: remove_nodes_from_def)

lemma edges_remove_nodes_from [simp]:
  "set (edges (remove_nodes_from g ns)) = {e \<in> set (edges g). fst e \<notin> ns \<and> snd e \<notin> ns}"
  by (auto simp: remove_nodes_from_def)

lemma nodes_remove_edges_from [simp]: "nodes (remove_edges_from g es) = nodes g"
  by (simp add: remove_edges_from_def)

lemma edges_remove_edges_from [simp]:
  "set (edges (remove_edges_from g es)) = set (edges g) - es"
  by (auto simp: remove_edges_from_def)

subsection \<open>What the collapser computes\<close>

lemma representative_no_at [simp]: "\<not> has_at (representative l)"
  by (simp add: representative_def)

lemma collapse_get_nodes_loop_cur:
  "fst (collapse_get_nodes_loop ns (cur, rm)) = (if ns = [] then cur else Some (last ns))"
  by (induction ns arbitrary: cur rm) auto

lemma collapse_get_nodes_loop_rm:
  "set (snd (collapse_get_nodes_loop ns (cur, rm))) = set rm \<union> {n \<in> set ns. has_at n}"
  by (induction ns arbitrary: cur rm) auto

lemma collapse_get_nodes_nonempty:
  assumes "nodes g \<noteq> []"
  shows "\<exists>rm. collapse_get_nodes g = Inr ([group_key (last (nodes g))], rm)
            \<and> set rm = {n \<in> set (nodes g). has_at n}"
proof -
  obtain cur rm where st: "collapse_get_nodes_loop (nodes g) (None, []) = (cur, rm)"
    by (cases "collapse_get_nodes_loop (nodes g) (None, [])")
  from collapse_get_nodes_loop_cur [of "nodes g" None "[]"] st assms
  have cur: "cur = Some (last (nodes g))" by simp
  from collapse_get_nodes_loop_rm [of "nodes g" None "[]"] st
  have rm: "set rm = {n \<in> set (nodes g). has_at n}" by simp
  show ?thesis using st cur rm by (simp add: collapse_get_nodes_def set_add_def)
qed

lemma collapse_edge_step_new:
  "set (fst (collapse_edge_step e acc)) =
     set (fst acc) \<union>
     (if has_at (fst e) \<or> has_at (snd e) then {map_prod representative representative e} else {})"
  by (cases e) (simp add: collapse_edge_step_def representative_def Let_def)

lemma collapse_edge_step_rm:
  "set (snd (collapse_edge_step e acc)) =
     set (snd acc) \<union> (if has_at (fst e) \<or> has_at (snd e) then {e} else {})"
  by (cases e) (simp add: collapse_edge_step_def Let_def)

lemma fold_collapse_edge_step_new:
  "set (fst (fold collapse_edge_step es acc)) =
     set (fst acc) \<union>
     map_prod representative representative ` {e \<in> set es. has_at (fst e) \<or> has_at (snd e)}"
proof (induction es arbitrary: acc)
  case Nil
  show ?case by simp
next
  case (Cons e es)
  show ?case
    unfolding fold_simps Cons.IH collapse_edge_step_new by auto
qed

lemma fold_collapse_edge_step_rm:
  "set (snd (fold collapse_edge_step es acc)) =
     set (snd acc) \<union> {e \<in> set es. has_at (fst e) \<or> has_at (snd e)}"
proof (induction es arbitrary: acc)
  case Nil
  show ?case by simp
next
  case (Cons e es)
  show ?case
    unfolding fold_simps Cons.IH collapse_edge_step_rm by auto
qed


lemma collapse_graph_nonempty:
  assumes "nodes g \<noteq> []"
  shows "\<exists>g'. collapse_graph g = Inr g'
     \<and> set (edges g') = map_prod representative representative ` set (edges g)
     \<and> set (nodes g') =
          {n \<in> set (nodes g). \<not> has_at n} \<union> {group_key (last (nodes g))} \<union>
          (representative ` (fst ` {e \<in> set (edges g). has_at (fst e) \<or> has_at (snd e)}
              \<union> snd ` {e \<in> set (edges g). has_at (fst e) \<or> has_at (snd e)}))"
proof -
  from collapse_get_nodes_nonempty [OF assms] obtain rm
    where cn: "collapse_get_nodes g = Inr ([group_key (last (nodes g))], rm)"
      and rm: "set rm = {n \<in> set (nodes g). has_at n}" by blast
  obtain ne er where ce: "collapse_get_edges g = (ne, er)"
    by (cases "collapse_get_edges g")
  let ?R = "{e \<in> set (edges g). has_at (fst e) \<or> has_at (snd e)}"
  have ne: "set ne = map_prod representative representative ` ?R"
    using fold_collapse_edge_step_new [of "edges g" "([], [])"] ce
    by (simp add: collapse_get_edges_def)
  have er: "set er = ?R"
    using fold_collapse_edge_step_rm [of "edges g" "([], [])"] ce
    by (simp add: collapse_get_edges_def)
  let ?g' = "remove_nodes_from
               (add_edges_from
                  (add_nodes_from (remove_edges_from g (set er)) [group_key (last (nodes g))]) ne)
               (set rm)"
  have res: "collapse_graph g = Inr ?g'"
    by (simp add: collapse_graph_def cn ce)
  have keep: "representative x = x" if "\<not> has_at x" for x
    using that by (simp add: representative_def)
  have E: "set (edges ?g') = map_prod representative representative ` set (edges g)"
  proof (rule set_eqI)
    fix e :: "string \<times> string"
    obtain a b where e: "e = (a, b)" by (cases e)
    show "e \<in> set (edges ?g') \<longleftrightarrow> e \<in> map_prod representative representative ` set (edges g)"
    proof
      assume "e \<in> set (edges ?g')"
      then have "e \<in> set ne \<or> e \<in> set (edges g) - set er" by auto
      then show "e \<in> map_prod representative representative ` set (edges g)"
      proof
        assume "e \<in> set ne"
        then show ?thesis unfolding ne by auto
      next
        assume h: "e \<in> set (edges g) - set er"
        then have "\<not> has_at (fst e)" "\<not> has_at (snd e)" unfolding er by auto
        then have "map_prod representative representative e = e"
          by (simp add: e keep)
        with h show ?thesis by (metis DiffD1 image_eqI)
      qed
    next
      assume "e \<in> map_prod representative representative ` set (edges g)"
      then obtain d where d: "d \<in> set (edges g)" and ed: "e = map_prod representative representative d"
        by (rule imageE)
      have noat: "\<not> has_at (fst e)" "\<not> has_at (snd e)"
        by (cases d, simp add: ed)+
      have "e \<in> set ne \<or> e \<in> set (edges g) - set er"
      proof (cases "d \<in> ?R")
        case True
        then show ?thesis unfolding ne ed by blast
      next
        case False
        with d have nd: "\<not> has_at (fst d)" "\<not> has_at (snd d)" by auto
        then have "e = d" by (cases d) (simp add: ed keep)
        with d False show ?thesis unfolding er by simp
      qed
      with noat show "e \<in> set (edges ?g')" by (auto simp: rm)
    qed
  qed
  have N: "set (nodes ?g') =
          {n \<in> set (nodes g). \<not> has_at n} \<union> {group_key (last (nodes g))} \<union>
          (representative ` (fst ` ?R \<union> snd ` ?R))"
  proof -
    have "fst ` set ne = representative ` fst ` ?R" unfolding ne by force
    moreover have "snd ` set ne = representative ` snd ` ?R" unfolding ne by force
    ultimately have "set (nodes ?g') =
        (representative ` fst ` ?R \<union> representative ` snd ` ?R
          \<union> ({group_key (last (nodes g))} \<union> set (nodes g))) - {n \<in> set (nodes g). has_at n}"
      by (simp add: rm)
    also have "\<dots> = {n \<in> set (nodes g). \<not> has_at n} \<union> {group_key (last (nodes g))} \<union>
          (representative ` (fst ` ?R \<union> snd ` ?R))"
      by (auto simp del: representative_no_at group_key_no_at
               dest: representative_no_at [THEN notE] group_key_no_at [THEN notE])
    finally show ?thesis .
  qed
  from res E N show ?thesis by blast
qed

text \<open>
  A graph that has a node, and no separator in any label, comes back as it went in.
\<close>

lemma collapse_graph_no_at_identity:
  assumes ne: "nodes g \<noteq> []"
    and nodes_plain: "\<forall>n \<in> set (nodes g). \<not> has_at n"
    and ends: "\<forall>e \<in> set (edges g). fst e \<in> set (nodes g) \<and> snd e \<in> set (nodes g)"
  shows "collapse_graph g = Inr g"
proof -
  have loop: "collapse_get_nodes_loop ns (cur, rm) = (if ns = [] then cur else Some (last ns), rm)"
    if "\<forall>n \<in> set ns. \<not> has_at n" for ns cur rm
    using that by (induction ns arbitrary: cur) auto
  have last_plain: "\<not> has_at (last (nodes g))"
    using ne nodes_plain by simp
  have cn: "collapse_get_nodes g = Inr ([last (nodes g)], [])"
    using loop [OF nodes_plain, of None "[]"] ne last_plain
    by (simp add: collapse_get_nodes_def set_add_def group_key_id)
  have step: "fold collapse_edge_step es acc = acc"
    if "\<forall>e \<in> set es. \<not> has_at (fst e) \<and> \<not> has_at (snd e)" for es acc
    using that by (induction es arbitrary: acc) (auto simp: collapse_edge_step_def Let_def)
  have "\<forall>e \<in> set (edges g). \<not> has_at (fst e) \<and> \<not> has_at (snd e)"
    using nodes_plain ends by blast
  then have ce: "collapse_get_edges g = ([], [])"
    by (simp add: collapse_get_edges_def step)
  have "last (nodes g) \<in> set (nodes g)" using ne by simp
  then show ?thesis
    by (simp add: collapse_graph_def cn ce remove_edges_from_def add_nodes_from_def
        add_edges_from_def add_node_def remove_nodes_from_def)
qed

subsection \<open>Quoting and relabelling\<close>

text \<open>
  \<open>quoted\<close> is the label that \<^verbatim>\<open>_quote_label\<close> returns, wherever it returns one. A
  quoted label is quoted to itself, so that relabelling the graph object in place ends
  with the same nodes and edges as building the relabelled graph afresh.
\<close>

lemma quote_label_cases:
  "quote_label label =
     (if label = [] then Inl IndexError
      else if hd label \<noteq> dquote \<and> last label \<noteq> dquote then Inr (dquote # label @ [dquote])
      else Inr label)"
  by (cases label) (simp_all add: quote_label_def)

lemma quote_label_total: "label \<noteq> [] \<Longrightarrow> quote_label label = Inr (quoted label)"
  by (cases label) (simp_all add: quote_label_def quoted_def)

lemma quoted_idem: "quoted (quoted n) = quoted n"
  by (cases n) (auto simp: quoted_def quote_label_def)

lemma first_error_None:
  "(\<forall>x \<in> set xs. \<exists>v. f x = Inr v) \<Longrightarrow> first_error (map f xs) = None"
  by (induction xs) auto

lemma nodes_relabel_nodes:
  "set (nodes (relabel_nodes g m)) =
     m ` set (nodes g) \<union> m ` fst ` set (edges g) \<union> m ` snd ` set (edges g)"
proof -
  have "fst ` map_prod m m ` set (edges g) = m ` fst ` set (edges g)"
    by (simp add: image_image)
  moreover have "snd ` map_prod m m ` set (edges g) = m ` snd ` set (edges g)"
    by (simp add: image_image)
  ultimately show ?thesis
    by (simp add: relabel_nodes_def empty_graph_def Un_commute Un_left_commute)
qed

lemma nodes_relabel_nodes_wf:
  "wf_digraph g \<Longrightarrow> set (nodes (relabel_nodes g m)) = m ` set (nodes g)"
  unfolding nodes_relabel_nodes by (auto simp: wf_digraph_def list_all_iff)

lemma edges_relabel_nodes:
  "set (edges (relabel_nodes g m)) = map_prod m m ` set (edges g)"
  by (simp add: relabel_nodes_def empty_graph_def)

lemma show_dot_returns:
  assumes "[] \<notin> set (nodes g)"
  shows "show_dot write_dot g =
           Inr (write_dot (reverse (relabel_nodes g quoted)), relabel_nodes g quoted)"
proof -
  have "\<forall>n \<in> set (nodes g). \<exists>v. quote_label n = Inr v"
  proof
    fix n assume "n \<in> set (nodes g)"
    with assms have "n \<noteq> []" by auto
    then show "\<exists>v. quote_label n = Inr v" by (simp add: quote_label_total)
  qed
  then have "first_error (map quote_label (nodes g)) = None"
    by (rule first_error_None)
  then show ?thesis by (simp add: show_dot_def Let_def)
qed

subsection \<open>Reachability and the scope filter\<close>

lemma wf_digraph_ends:
  "wf_digraph g \<Longrightarrow> (a, b) \<in> set (edges g) \<Longrightarrow> a \<in> set (nodes g) \<and> b \<in> set (nodes g)"
  by (auto simp: wf_digraph_def list_all_iff)

lemma reachable_in_range: "y \<in> reachable g s \<Longrightarrow> y \<in> snd ` set (edges g)"
  unfolding reachable_def by (auto dest!: tranclD2 simp: image_iff) force

lemma reachable_nodes: "wf_digraph g \<Longrightarrow> reachable g s \<subseteq> set (nodes g)"
  by (auto dest!: reachable_in_range dest: wf_digraph_ends)

lemma edges_to_undirected [simp]:
  "set (edges (to_undirected g)) = set (edges g) \<union> (set (edges g))\<inverse>"
  by (auto simp: to_undirected_def)

lemma nodes_to_undirected [simp]: "nodes (to_undirected g) = nodes g"
  by (simp add: to_undirected_def)

lemma reachable_to_undirected: "reachable g s \<subseteq> reachable (to_undirected g) s"
proof
  fix y assume "y \<in> reachable g s"
  then have "(s, y) \<in> (set (edges g))\<^sup>+" by (simp add: reachable_def)
  then have "(s, y) \<in> (set (edges g) \<union> (set (edges g))\<inverse>)\<^sup>+"
    by (rule trancl_mono) simp
  then show "y \<in> reachable (to_undirected g) s" by (simp add: reachable_def)
qed

text \<open>Every path from \<open>s\<close> stays among the nodes reachable from \<open>s\<close>.\<close>

lemma reachable_within:
  assumes "y \<in> reachable g s"
  shows "(s, y) \<in> {e \<in> set (edges g). fst e \<in> insert s (reachable g s)
                                   \<and> snd e \<in> insert s (reachable g s)}\<^sup>+"
proof -
  let ?D = "insert s (reachable g s)"
  let ?E = "{e \<in> set (edges g). fst e \<in> ?D \<and> snd e \<in> ?D}"
  from assms have "(s, y) \<in> (set (edges g))\<^sup>+" by (simp add: reachable_def)
  then show "(s, y) \<in> ?E\<^sup>+"
  proof (induction rule: trancl_induct)
    case (base y)
    then have "y \<in> reachable g s" by (auto simp: reachable_def)
    with base have "(s, y) \<in> ?E" by simp
    then show ?case by (rule r_into_trancl)
  next
    case (step y z)
    from step.hyps(1) have y: "y \<in> reachable g s" by (simp add: reachable_def)
    from step.hyps(1,2) have "(s, z) \<in> (set (edges g))\<^sup>+" by (rule trancl_into_trancl)
    then have z: "z \<in> reachable g s" by (simp add: reachable_def)
    from step.hyps(2) y z have "(y, z) \<in> ?E" by simp
    with step.IH show ?case by (rule trancl_into_trancl)
  qed
qed

lemma descendants_loop_single:
  "T \<in> set (nodes g) \<Longrightarrow> descendants_loop g [T] {} = Inr (insert T (reachable g T))"
  by (simp add: descendants_def)

lemma connected_loop_single:
  "T \<in> set (nodes u) \<Longrightarrow> connected_loop u [T] {} = Inr (component_of u T)"
  by (simp add: node_connected_component_def)

lemma nodes_restrict:
  "wf_digraph g \<Longrightarrow> D \<subseteq> set (nodes g)
     \<Longrightarrow> set (nodes (remove_nodes_from g (set (nodes g) - D))) = D"
  by auto

lemma edges_restrict:
  "wf_digraph g \<Longrightarrow>
     set (edges (remove_nodes_from g (set (nodes g) - D)))
       = {e \<in> set (edges g). fst e \<in> D \<and> snd e \<in> D}"
  by (auto dest: wf_digraph_ends)

lemma component_of_restricted:
  assumes wf: "wf_digraph g" and T: "T \<in> set (nodes g)"
  shows "component_of (to_undirected (remove_nodes_from g (set (nodes g) - insert T (reachable g T)))) T
           = insert T (reachable g T)"
proof -
  let ?D = "insert T (reachable g T)"
  let ?h = "remove_nodes_from g (set (nodes g) - ?D)"
  let ?E = "{e \<in> set (edges g). fst e \<in> ?D \<and> snd e \<in> ?D}"
  have E: "set (edges ?h) = ?E" by (rule edges_restrict [OF wf])
  have U: "set (edges (to_undirected ?h)) = ?E \<union> ?E\<inverse>"
    unfolding edges_to_undirected E ..
  show ?thesis
  proof (rule equalityI; rule subsetI)
    fix y assume "y \<in> component_of (to_undirected ?h) T"
    then have "y = T \<or> y \<in> reachable (to_undirected ?h) T" by (simp add: component_of_def)
    then show "y \<in> ?D"
    proof
      assume "y = T" then show ?thesis by simp
    next
      assume "y \<in> reachable (to_undirected ?h) T"
      then have "y \<in> snd ` set (edges (to_undirected ?h))" by (rule reachable_in_range)
      then have "y \<in> snd ` (?E \<union> ?E\<inverse>)" unfolding U .
      then show ?thesis by auto
    qed
  next
    fix y assume "y \<in> ?D"
    then have "y = T \<or> y \<in> reachable g T" by simp
    then show "y \<in> component_of (to_undirected ?h) T"
    proof
      assume "y = T" then show ?thesis by (simp add: component_of_def)
    next
      assume "y \<in> reachable g T"
      then have "(T, y) \<in> ?E\<^sup>+" by (rule reachable_within)
      then have "(T, y) \<in> (?E \<union> ?E\<inverse>)\<^sup>+" by (rule trancl_mono) simp
      with U have "(T, y) \<in> (set (edges (to_undirected ?h)))\<^sup>+"
        by (simp only:)
      then have "y \<in> reachable (to_undirected ?h) T"
        by (simp only: reachable_def Image_singleton_iff)
      then show ?thesis by (simp add: component_of_def)
    qed
  qed
qed

lemma filter_graph_single_nodes:
  assumes wf: "wf_digraph g" and T: "T \<in> set (nodes g)"
  shows "\<exists>g'. filter_graph g [T] False = Inr g' \<and> set (nodes g') = insert T (reachable g T)"
proof -
  define D where "D = insert T (reachable g T)"
  define h where "h = remove_nodes_from g (set (nodes g) - D)"
  have D: "D \<subseteq> set (nodes g)"
    using reachable_nodes [OF wf] T by (auto simp: D_def)
  have Nh: "set (nodes h) = D"
    unfolding h_def by (rule nodes_restrict [OF wf D])
  then have Th: "T \<in> set (nodes (to_undirected h))"
    by (simp add: D_def)
  have C: "component_of (to_undirected h) T = D"
    unfolding h_def D_def by (rule component_of_restricted [OF wf T])
  have step1: "descendants_loop g [T] {} = Inr D"
    unfolding D_def by (rule descendants_loop_single [OF T])
  have step2: "connected_loop (to_undirected h) [T] {} = Inr D"
    using connected_loop_single [OF Th] C by simp
  have "filter_graph g [T] False = Inr (remove_nodes_from h (set (nodes h) - D))"
    by (simp only: filter_graph_def step1 h_def [symmetric] step2 sum.case
        list.distinct if_False not_False_eq_True if_True)
  moreover have "set (nodes (remove_nodes_from h (set (nodes h) - D))) = D"
    using Nh by auto
  ultimately show ?thesis unfolding D_def by blast
qed

subsection \<open>The flowchart text, line by line\<close>

lemma extends_refl [simp]: "extends buf buf"
  by (simp add: extends_def)

lemma extends_trans: "extends a b \<Longrightarrow> extends b c \<Longrightarrow> extends a c"
proof -
  assume "extends a b" and "extends b c"
  then obtain x y where b: "b = a @ x" and x: "x = [] \<or> hd x = CHR 0x0A"
    and c: "c = b @ y" and y: "y = [] \<or> hd y = CHR 0x0A"
    by (auto simp: extends_def)
  have "c = a @ (x @ y)" using b c by simp
  moreover have "x @ y = [] \<or> hd (x @ y) = CHR 0x0A" using x y by (cases x) auto
  ultimately show ?thesis unfolding extends_def by blast
qed

lemma extends_node_decl [simp]: "extends buf (buf @ node_decl i n)"
  unfolding extends_def by (rule exI [of _ "node_decl i n"]) (simp add: node_decl_def)

lemma extends_arrow_line [simp]: "extends buf (buf @ arrow_line a b)"
  unfolding extends_def by (rule exI [of _ "arrow_line a b"]) (simp add: arrow_line_def)

lemma has_line_last [simp]: "has_line l (buf @ l)"
  by (simp add: has_line_def)

lemma has_line_extends:
  assumes "has_line l buf" and "extends buf buf'"
  shows "has_line l buf'"
proof -
  from assms(2) obtain c where t: "buf' = buf @ c" and c: "c = [] \<or> hd c = CHR 0x0A"
    by (auto simp: extends_def)
  show ?thesis
  proof (cases c)
    case Nil
    with t assms(1) show ?thesis by simp
  next
    case (Cons x xs)
    with c have "x = CHR 0x0A" by simp
    with Cons t have "buf' @ [CHR 0x0A] = (buf @ [CHR 0x0A]) @ (xs @ [CHR 0x0A])" by simp
    moreover from assms(1) obtain ps ss where "buf @ [CHR 0x0A] = ps @ (l @ [CHR 0x0A]) @ ss"
      by (auto simp: has_line_def sublist_def)
    ultimately have "buf' @ [CHR 0x0A] = ps @ (l @ [CHR 0x0A]) @ (ss @ xs @ [CHR 0x0A])"
      by simp
    then show ?thesis unfolding has_line_def sublist_def by blast
  qed
qed

lemma has_line_wrapped:
  assumes "has_line l buf"
  shows "has_line l (pre @ buf @ [CHR 0x0A] @ post)"
proof -
  from assms obtain ps ss where "buf @ [CHR 0x0A] = ps @ (l @ [CHR 0x0A]) @ ss"
    by (auto simp: has_line_def sublist_def)
  then have "(pre @ buf @ [CHR 0x0A] @ post) @ [CHR 0x0A]
               = (pre @ ps) @ (l @ [CHR 0x0A]) @ (ss @ post @ [CHR 0x0A])"
    by simp
  then show ?thesis unfolding has_line_def sublist_def by blast
qed

lemma declared_extends: "declared ids buf \<Longrightarrow> extends buf buf' \<Longrightarrow> declared ids buf'"
  unfolding declared_def by (blast intro: has_line_extends)

lemma declare_nodes_inv:
  assumes "declared ids buf"
    and "declare_nodes ns (buf, tn, ids) = (buf', tn', ids')"
  shows "extends buf buf' \<and> declared ids' buf' \<and> set ns \<union> dom ids \<subseteq> dom ids'"
  using assms
proof (induction ns arbitrary: buf tn ids)
  case Nil
  then show ?case by (simp add: declare_nodes_def)
next
  case (Cons n ns)
  let ?i = "''node'' @ str_nat (tn + 1)"
  let ?t = "buf @ node_decl ?i n"
  have d: "declared (ids(n \<mapsto> ?i)) ?t"
    unfolding declared_def
  proof (intro allI impI)
    fix m j assume h: "(ids(n \<mapsto> ?i)) m = Some j"
    show "(\<exists>k. j = ''node'' @ str_nat k) \<and> has_line (node_decl j m) ?t"
    proof (cases "m = n")
      case True
      with h have "j = ?i" by simp
      with True show ?thesis by (metis has_line_last)
    next
      case False
      with h have "ids m = Some j" by simp
      with Cons.prems(1) have "(\<exists>k. j = ''node'' @ str_nat k)" and "has_line (node_decl j m) buf"
        unfolding declared_def by blast+
      then show ?thesis using has_line_extends extends_node_decl by blast
    qed
  qed
  have run: "declare_nodes ns (?t, tn + 1, ids(n \<mapsto> ?i)) = (buf', tn', ids')"
    using Cons.prems(2) by (simp add: declare_nodes_def declare_node_def)
  from Cons.IH [OF d run]
  have e1: "extends ?t buf'" and d': "declared ids' buf'"
    and sub: "set ns \<union> dom (ids(n \<mapsto> ?i)) \<subseteq> dom ids'" by blast+
  have "extends buf ?t" by (rule extends_node_decl)
  then have "extends buf buf'" using e1 by (rule extends_trans)
  moreover from sub have "set (n # ns) \<union> dom ids \<subseteq> dom ids'" by auto
  ultimately show ?case using d' by blast
qed

lemma emit_edges_ok:
  assumes "\<forall>e \<in> set es. fst e \<in> dom ids \<and> snd e \<in> dom ids"
  shows "\<exists>buf'. emit_edges es ids buf = Inr buf' \<and> extends buf buf'
           \<and> (\<forall>e \<in> set es. \<exists>ia ib. ids (fst e) = Some ia \<and> ids (snd e) = Some ib
                  \<and> has_line (arrow_line ia ib) buf')"
  using assms
proof (induction es arbitrary: buf)
  case Nil
  then show ?case by simp
next
  case (Cons e es)
  obtain a b where e: "e = (a, b)" by (cases e)
  from Cons.prems e obtain ia ib where ia: "ids a = Some ia" and ib: "ids b = Some ib"
    by auto
  let ?t = "buf @ arrow_line ia ib"
  from Cons.prems have "\<forall>e \<in> set es. fst e \<in> dom ids \<and> snd e \<in> dom ids" by simp
  from Cons.IH [OF this, of ?t] obtain buf' where
    run: "emit_edges es ids ?t = Inr buf'" and ext: "extends ?t buf'"
    and rest: "\<forall>e \<in> set es. \<exists>ia ib. ids (fst e) = Some ia \<and> ids (snd e) = Some ib
                  \<and> has_line (arrow_line ia ib) buf'"
    by blast
  have r: "emit_edges (e # es) ids buf = Inr buf'"
    using run by (simp add: e ia ib)
  have x: "extends buf buf'"
    using ext extends_arrow_line by (blast intro: extends_trans)
  have "has_line (arrow_line ia ib) ?t" by simp
  then have h: "has_line (arrow_line ia ib) buf'" using ext by (rule has_line_extends)
  have "\<forall>d \<in> set (e # es). \<exists>ia ib. ids (fst d) = Some ia \<and> ids (snd d) = Some ib
                  \<and> has_line (arrow_line ia ib) buf'"
    using rest h ia ib by (simp add: e)
  with r x show ?case by blast
qed

lemma edge_shown_extends: "edge_shown A B buf \<Longrightarrow> extends buf buf' \<Longrightarrow> edge_shown A B buf'"
  unfolding edge_shown_def by (blast intro: has_line_extends)

lemma declared_empty [simp]: "declared Map.empty buf"
  by (simp add: declared_def)

lemma show_pipeline_step:
  assumes cl: "closed_graph p"
    and dn: "declare_nodes (sort (nodes p)) (buf, tn, Map.empty) = (buf1, tn1, ids)"
  shows "\<exists>buf2. emit_edges (sort (map prod.swap (edges p))) ids buf1 = Inr buf2
           \<and> extends buf buf2
           \<and> (\<forall>e \<in> set (edges p). edge_shown (fst e) (snd e) buf2)"
proof -
  from declare_nodes_inv [OF declared_empty dn]
  have e1: "extends buf buf1" and d1: "declared ids buf1" and dom: "set (nodes p) \<subseteq> dom ids"
    by auto
  have "\<forall>e \<in> set (sort (map prod.swap (edges p))). fst e \<in> dom ids \<and> snd e \<in> dom ids"
    using cl dom by (auto simp: closed_graph_def)
  from emit_edges_ok [OF this, of buf1] obtain buf2 where
    run: "emit_edges (sort (map prod.swap (edges p))) ids buf1 = Inr buf2"
    and e2: "extends buf1 buf2"
    and arrows: "\<forall>e \<in> set (sort (map prod.swap (edges p))).
        \<exists>ia ib. ids (fst e) = Some ia \<and> ids (snd e) = Some ib \<and> has_line (arrow_line ia ib) buf2"
    by blast
  have d2: "declared ids buf2" using d1 e2 by (rule declared_extends)
  have "edge_shown (fst e) (snd e) buf2" if "e \<in> set (edges p)" for e
  proof -
    obtain A B where e: "e = (A, B)" by (cases e)
    with that have "(B, A) \<in> set (sort (map prod.swap (edges p)))" by force
    with arrows obtain ib ia where ib: "ids B = Some ib" and ia: "ids A = Some ia"
      and ar: "has_line (arrow_line ib ia) buf2" by fastforce
    from d2 ia obtain ka where ka: "ia = ''node'' @ str_nat ka" and la: "has_line (node_decl ia A) buf2"
      unfolding declared_def by blast
    from d2 ib obtain kb where kb: "ib = ''node'' @ str_nat kb" and lb: "has_line (node_decl ib B) buf2"
      unfolding declared_def by blast
    from la lb ar show ?thesis unfolding edge_shown_def e ka kb by auto
  qed
  moreover have "extends buf buf2" using e1 e2 by (rule extends_trans)
  ultimately show ?thesis using run by blast
qed

lemma show_pipelines_ok:
  assumes "\<forall>p \<in> set ps. closed_graph p"
  shows "\<exists>res. show_pipelines ps (buf, tn) = Inr res \<and> extends buf res
           \<and> (\<forall>p \<in> set ps. \<forall>e \<in> set (edges p). edge_shown (fst e) (snd e) res)"
  using assms
proof (induction ps arbitrary: buf tn)
  case Nil
  then show ?case by simp
next
  case (Cons p ps)
  obtain buf1 tn1 ids where
    dn: "declare_nodes (sort (nodes p)) (buf, tn, Map.empty) = (buf1, tn1, ids)"
    by (cases "declare_nodes (sort (nodes p)) (buf, tn, Map.empty)")
  from Cons.prems have cl: "closed_graph p" by simp
  from show_pipeline_step [OF cl dn] obtain buf2 where
    run: "emit_edges (sort (map prod.swap (edges p))) ids buf1 = Inr buf2"
    and e2: "extends buf buf2"
    and sh: "\<forall>e \<in> set (edges p). edge_shown (fst e) (snd e) buf2"
    by blast
  from Cons.prems have "\<forall>p \<in> set ps. closed_graph p" by simp
  from Cons.IH [OF this, of buf2 tn1] obtain res where
    rest: "show_pipelines ps (buf2, tn1) = Inr res" and e3: "extends buf2 res"
    and sh': "\<forall>p \<in> set ps. \<forall>e \<in> set (edges p). edge_shown (fst e) (snd e) res"
    by blast
  have r: "show_pipelines (p # ps) (buf, tn) = Inr res"
    by (simp add: dn run rest)
  have x: "extends buf res" using e2 e3 by (rule extends_trans)
  have "\<forall>e \<in> set (edges p). edge_shown (fst e) (snd e) res"
    using sh e3 by (blast intro: edge_shown_extends)
  with sh' have "\<forall>q \<in> set (p # ps). \<forall>e \<in> set (edges q). edge_shown (fst e) (snd e) res"
    by simp
  with r x show ?case by blast
qed

lemma components_are_components:
  "c \<in> set (components u ns) \<Longrightarrow> \<exists>n. c = component_of u n"
  by (induction u ns rule: components.induct) auto

lemma components_cover:
  "x \<in> set ns \<Longrightarrow> \<exists>c \<in> set (components u ns). x \<in> c"
proof (induction u ns rule: components.induct)
  case (1 u)
  then show ?case by simp
next
  case (2 u n ns)
  show ?case
  proof (cases "x \<in> component_of u n")
    case True
    then show ?thesis by simp
  next
    case False
    then have "x \<noteq> n" by (auto simp: component_of_def)
    with "2.prems" False have "x \<in> set (filter (\<lambda>v. v \<notin> component_of u n) ns)" by simp
    from "2.IH" [OF this] show ?thesis by auto
  qed
qed

lemma component_of_step:
  assumes "a \<in> component_of u n" and "(a, b) \<in> set (edges u)"
  shows "b \<in> component_of u n"
proof -
  from assms(1) have "a = n \<or> (n, a) \<in> (set (edges u))\<^sup>+"
    by (simp add: component_of_def reachable_def)
  then have "(n, b) \<in> (set (edges u))\<^sup>+"
  proof
    assume "a = n"
    with assms(2) show ?thesis by (simp add: r_into_trancl)
  next
    assume "(n, a) \<in> (set (edges u))\<^sup>+"
    then show ?thesis using assms(2) by (rule trancl_into_trancl)
  qed
  then show ?thesis by (simp add: component_of_def reachable_def)
qed

lemma get_pipelines_closed:
  assumes "wf_digraph g" and "p \<in> set (get_pipelines g)"
  shows "closed_graph p"
proof -
  from assms(2) obtain c where p: "p = subgraph g c"
    by (auto simp: get_pipelines_def)
  show ?thesis
    unfolding closed_graph_def p subgraph_def
    using wf_digraph_ends [OF assms(1)] by auto
qed

lemma get_pipelines_cover:
  assumes wf: "wf_digraph g" and e: "(A, B) \<in> set (edges g)"
  shows "\<exists>p \<in> set (get_pipelines g). (A, B) \<in> set (edges p)"
proof -
  let ?u = "to_undirected g"
  from wf_digraph_ends [OF wf e] have "A \<in> set (nodes g)" by simp
  from components_cover [OF this, of ?u] obtain c where
    c: "c \<in> set (components ?u (nodes g))" and A: "A \<in> c" by blast
  from components_are_components [OF c] obtain n where n: "c = component_of ?u n" by blast
  from e have "(A, B) \<in> set (edges ?u)" by simp
  with A have B: "B \<in> c" unfolding n by (rule component_of_step)
  from e A B have "(A, B) \<in> set (edges (subgraph g c))" by (simp add: subgraph_def)
  moreover from c have "subgraph g c \<in> set (get_pipelines g)"
    by (simp add: get_pipelines_def weakly_connected_components_def)
  ultimately show ?thesis by blast
qed

lemma show_mermaid_edge:
  assumes wf: "wf_digraph g" and e: "(A, B) \<in> set (edges g)"
  shows "\<exists>res. show_mermaid g markdown = Inr res \<and> edge_shown A B res"
proof -
  have "\<forall>p \<in> set (get_pipelines g). closed_graph p"
    using get_pipelines_closed [OF wf] by blast
  from show_pipelines_ok [OF this, of "''flowchart TD''" 0] obtain res where
    run: "show_pipelines (get_pipelines g) (''flowchart TD'', 0) = Inr res"
    and sh: "\<forall>p \<in> set (get_pipelines g). \<forall>e \<in> set (edges p). edge_shown (fst e) (snd e) res"
    by blast
  from get_pipelines_cover [OF wf e] sh have s: "edge_shown A B res" by fastforce
  show ?thesis
  proof (cases markdown)
    case False
    with run s show ?thesis by (simp add: show_mermaid_def)
  next
    case True
    let ?pre = "replicate 3 (CHR 0x60) @ ''mermaid'' @ [CHR 0x0A]"
    let ?post = "replicate 3 (CHR 0x60)"
    have "show_mermaid g markdown = Inr (?pre @ res @ [CHR 0x0A] @ ?post)"
      using True run by (simp add: show_mermaid_def)
    moreover have "edge_shown A B (?pre @ res @ [CHR 0x0A] @ ?post)"
      using s unfolding edge_shown_def by (blast intro: has_line_wrapped)
    ultimately show ?thesis by blast
  qed
qed

lemma show_dot_edge:
  assumes wf: "wf_digraph g" and ne: "[] \<notin> set (nodes g)" and e: "(A, B) \<in> set (edges g)"
  shows "\<exists>g'. show_dot write_dot g = Inr (write_dot (reverse g'), g')
          \<and> quote_label A = Inr (quoted A) \<and> quote_label B = Inr (quoted B)
          \<and> (quoted B, quoted A) \<in> set (edges (reverse g'))"
proof -
  from wf_digraph_ends [OF wf e] ne have "A \<noteq> []" "B \<noteq> []" by auto
  then have q: "quote_label A = Inr (quoted A)" "quote_label B = Inr (quoted B)"
    by (simp_all add: quote_label_total)
  from e have "map_prod quoted quoted (A, B) \<in> map_prod quoted quoted ` set (edges g)"
    by (rule imageI)
  then have "(quoted A, quoted B) \<in> set (edges (relabel_nodes g quoted))"
    by (simp add: edges_relabel_nodes)
  then have "(quoted B, quoted A) \<in> set (edges (reverse (relabel_nodes g quoted)))"
    by (force simp: reverse_def)
  with show_dot_returns [OF ne, of write_dot] q show ?thesis by blast
qed

subsection \<open>Collapsing the empty graph\<close>

text \<open>
  C10. On the empty graph (no nodes, no edges) \<^verbatim>\<open>_collapse_graph\<close> returns no graph: the
  loop over the nodes never binds \<^verbatim>\<open>_node\<close>, and the statement after the loop that reads
  it raises.
\<close>

theorem collapse_graph_empty_raises:
  "collapse_graph empty_graph = Inl UnboundLocalError"
  by (simp add: collapse_graph_def collapse_get_nodes_def empty_graph_def)

subsection \<open>Groups and their representatives\<close>

text \<open>
  C2. The claim: \<^verbatim>\<open>_collapse_graph\<close> removes every node whose label contains the separator,
  and every group key that had a member, also a member without edges, has its
  representative in the result. The code adds the group key of the last node only (and
  the ends of the rewritten edges): on the graph with the nodes \<^verbatim>\<open>a@1\<close> and \<^verbatim>\<open>b\<close> and no
  edge it returns the single node \<^verbatim>\<open>b\<close>, and the group \<^verbatim>\<open>a\<close> is gone.
\<close>

theorem collapse_graph_drops_isolated_group:
  "collapse_graph \<lparr>nodes = [''a@1'', ''b''], edges = []\<rparr> = Inr \<lparr>nodes = [''b''], edges = []\<rparr>"
  by (simp add: collapse_graph_def collapse_get_nodes_def collapse_get_edges_def has_at_def
      group_key_def set_add_def add_nodes_from_def add_edges_from_def add_node_def
      remove_nodes_from_def remove_edges_from_def)

text \<open>
  C3, as stated: after collapsing a graph with an edge between two members of one group
  there is no self-edge at the representative. On the graph with the single edge from
  \<^verbatim>\<open>build@1\<close> to \<^verbatim>\<open>build@2\<close> the result has the edge from \<^verbatim>\<open>build\<close> to \<^verbatim>\<open>build\<close>.
\<close>

theorem collapse_graph_self_edge_counterexample:
  "collapse_graph \<lparr>nodes = [''build@1'', ''build@2''], edges = [(''build@1'', ''build@2'')]\<rparr>
     = Inr \<lparr>nodes = [''build''], edges = [(''build'', ''build'')]\<rparr>
   \<and> (''build'', ''build'') \<in> set (edges \<lparr>nodes = [''build''], edges = [(''build'', ''build'')]\<rparr>)"
  by (simp add: collapse_graph_def collapse_get_nodes_def collapse_get_edges_def has_at_def
      group_key_def set_add_def add_nodes_from_def add_edges_from_def add_node_def add_edge_def
      remove_nodes_from_def remove_edges_from_def collapse_edge_step_def Let_def)

text \<open>
  C3, amended: for every well-formed label graph with an edge between two distinct nodes
  that both contain the separator and share the group key, \<^verbatim>\<open>_collapse_graph\<close> returns a
  graph in which the representative of the group is a node and carries a self-edge: the
  rewritten edge is added as it is, and nothing removes it.
\<close>

theorem collapse_graph_same_group_edge:
  assumes "wf_digraph g" and "(u, v) \<in> set (edges g)" and "u \<noteq> v"
    and "has_at u" and "has_at v" and "group_key u = group_key v"
  shows "\<exists>g'. collapse_graph g = Inr g'
           \<and> group_key u \<in> set (nodes g')
           \<and> (group_key u, group_key u) \<in> set (edges g')"
proof -
  from assms(1,2) have "u \<in> set (nodes g)"
    by (auto simp: wf_digraph_def list_all_iff)
  then have "nodes g \<noteq> []" by auto
  from collapse_graph_nonempty [OF this] obtain g' where
    res: "collapse_graph g = Inr g'"
    and E: "set (edges g') = map_prod representative representative ` set (edges g)"
    and N: "set (nodes g') =
          {n \<in> set (nodes g). \<not> has_at n} \<union> {group_key (last (nodes g))} \<union>
          (representative ` (fst ` {e \<in> set (edges g). has_at (fst e) \<or> has_at (snd e)}
              \<union> snd ` {e \<in> set (edges g). has_at (fst e) \<or> has_at (snd e)}))"
    by blast
  have "map_prod representative representative (u, v) = (group_key u, group_key u)"
    using assms(4,5,6) by (simp add: representative_def)
  moreover from assms(2) have "map_prod representative representative (u, v)
      \<in> map_prod representative representative ` set (edges g)"
    by (rule imageI)
  ultimately have e: "(group_key u, group_key u) \<in> set (edges g')"
    unfolding E by simp
  let ?R = "{e \<in> set (edges g). has_at (fst e) \<or> has_at (snd e)}"
  have "(u, v) \<in> ?R"
    using assms(2,4) by simp
  then have "fst (u, v) \<in> fst ` ?R"
    by (rule imageI)
  then have "u \<in> fst ` ?R \<union> snd ` ?R"
    by simp
  then have "representative u \<in> representative ` (fst ` ?R \<union> snd ` ?R)"
    by (rule imageI)
  moreover have "representative u = group_key u"
    using assms(4) by (simp add: representative_def)
  ultimately have "group_key u \<in> representative ` (fst ` ?R \<union> snd ` ?R)"
    by simp
  then have n: "group_key u \<in> set (nodes g')"
    unfolding N by (rule UnI2)
  from res n e show ?thesis by blast
qed

theorem collapse_graph_same_group_edge_witness:
  "wf_digraph \<lparr>nodes = [''build@1'', ''build@2''], edges = [(''build@1'', ''build@2'')]\<rparr>
   \<and> (''build@1'', ''build@2'') \<in> set (edges \<lparr>nodes = [''build@1'', ''build@2''], edges = [(''build@1'', ''build@2'')]\<rparr>)
   \<and> ''build@1'' \<noteq> ''build@2'' \<and> has_at ''build@1'' \<and> has_at ''build@2''
   \<and> group_key ''build@1'' = group_key ''build@2''
   \<and> (\<exists>g'. collapse_graph \<lparr>nodes = [''build@1'', ''build@2''], edges = [(''build@1'', ''build@2'')]\<rparr> = Inr g'
           \<and> group_key ''build@1'' \<in> set (nodes g')
           \<and> (group_key ''build@1'', group_key ''build@1'') \<in> set (edges g'))"
proof -
  have h1: "wf_digraph \<lparr>nodes = [''build@1'', ''build@2''], edges = [(''build@1'', ''build@2'')]\<rparr>"
    by (simp add: wf_digraph_def)
  have h2: "(''build@1'', ''build@2'') \<in> set (edges \<lparr>nodes = [''build@1'', ''build@2''], edges = [(''build@1'', ''build@2'')]\<rparr>)"
    by simp
  have h3: "''build@1'' \<noteq> ''build@2''" by simp
  have h4: "has_at ''build@1''" and h5: "has_at ''build@2''" by (simp_all add: has_at_def)
  have h6: "group_key ''build@1'' = group_key ''build@2''" by (simp add: group_key_def)
  from collapse_graph_same_group_edge [OF h1 h2 h3 h4 h5 h6] h1 h2 h3 h4 h5 h6
  show ?thesis by blast
qed

subsection \<open>Collapsing a graph without groups\<close>

text \<open>
  C5. The claim: on a graph in which no label contains the separator, the empty graph
  included, \<^verbatim>\<open>_collapse_graph\<close> returns a graph with the same nodes and edges. For a graph
  with at least one node this is \<open>collapse_graph_no_at_identity\<close>. On the empty graph
  the call returns no graph at all: its result is an exception.
\<close>

theorem collapse_graph_empty_not_identity:
  "isl (collapse_graph empty_graph)"
  by (simp add: collapse_graph_def collapse_get_nodes_def empty_graph_def)

subsection \<open>Quoting a label\<close>

text \<open>
  C8. The claim: \<^verbatim>\<open>_quote_label\<close> returns a label unchanged when it begins and ends with a
  double quote, and wrapped in double quotes otherwise. The test of the code is that
  neither end is a double quote, so that a label with a double quote at one end only is
  returned as it is: the label of the two characters double quote and \<^verbatim>\<open>a\<close> comes back
  unchanged, not wrapped.
\<close>

theorem quote_label_half_quoted_unchanged:
  "quote_label [dquote, CHR ''a''] = Inr [dquote, CHR ''a'']"
  by (simp add: quote_label_def)

subsection \<open>The dot renderer and the graph it is given\<close>

text \<open>
  C7, as stated: after \<^verbatim>\<open>_show_dot\<close> the graph it was given has the same node labels and
  edges as before. For the graph with the single node \<^verbatim>\<open>a\<close> the caller's graph has, after
  the call, the single node \<^verbatim>\<open>"a"\<close>, with the quotes in the label.
\<close>

theorem show_dot_relabels_input_counterexample:
  "show_dot edge_lines \<lparr>nodes = [''a''], edges = []\<rparr>
     = Inr ([], \<lparr>nodes = [[dquote, CHR ''a'', dquote]], edges = []\<rparr>)
   \<and> set (nodes \<lparr>nodes = [[dquote, CHR ''a'', dquote]], edges = []\<rparr>)
       \<noteq> set (nodes \<lparr>nodes = [''a''], edges = ([] :: (string \<times> string) list)\<rparr>)"
  by (simp add: show_dot_def quote_label_def quoted_def relabel_nodes_def add_nodes_from_def
      add_edges_from_def add_node_def empty_graph_def dquote_def edge_lines_def reverse_def)

text \<open>
  C7, amended: for every well-formed label graph without an empty label, \<^verbatim>\<open>_show_dot\<close>
  returns, and it relabels the graph it was given in place: after the call the node
  labels of that graph are the labels that \<^verbatim>\<open>_quote_label\<close> returns for the labels
  before, and its edges are the edges before with both ends relabelled so.
\<close>

theorem show_dot_relabels_input:
  assumes "wf_digraph g" and "[] \<notin> set (nodes g)"
  shows "\<exists>text g'. show_dot write_dot g = Inr (text, g')
           \<and> set (nodes g') = quoted ` set (nodes g)
           \<and> set (edges g') = map_prod quoted quoted ` set (edges g)"
proof (intro exI conjI)
  show "show_dot write_dot g =
          Inr (write_dot (reverse (relabel_nodes g quoted)), relabel_nodes g quoted)"
    by (rule show_dot_returns [OF assms(2)])
  show "set (nodes (relabel_nodes g quoted)) = quoted ` set (nodes g)"
    by (rule nodes_relabel_nodes_wf [OF assms(1)])
  show "set (edges (relabel_nodes g quoted)) = map_prod quoted quoted ` set (edges g)"
    by (rule edges_relabel_nodes)
qed

theorem show_dot_relabels_input_witness:
  "wf_digraph \<lparr>nodes = [''a'', ''b''], edges = [(''a'', ''b'')]\<rparr>
   \<and> [] \<notin> set (nodes \<lparr>nodes = [''a'', ''b''], edges = [(''a'', ''b'')]\<rparr>)
   \<and> (\<exists>text g'. show_dot edge_lines \<lparr>nodes = [''a'', ''b''], edges = [(''a'', ''b'')]\<rparr> = Inr (text, g')
           \<and> set (nodes g') = quoted ` set (nodes \<lparr>nodes = [''a'', ''b''], edges = [(''a'', ''b'')]\<rparr>)
           \<and> set (edges g') = map_prod quoted quoted ` set (edges \<lparr>nodes = [''a'', ''b''], edges = [(''a'', ''b'')]\<rparr>))"
proof -
  have h1: "wf_digraph \<lparr>nodes = [''a'', ''b''], edges = [(''a'', ''b'')]\<rparr>"
    by (simp add: wf_digraph_def)
  have h2: "[] \<notin> set (nodes \<lparr>nodes = [''a'', ''b''], edges = [(''a'', ''b'')]\<rparr>)"
    by simp
  from show_dot_relabels_input [OF h1 h2] h1 h2 show ?thesis by blast
qed

subsection \<open>Targets by outputs\<close>

text \<open>
  C9. The claim: with \<^verbatim>\<open>outs\<close> set, a matched pair with a non-empty path contributes, for
  every output found under that path, one list element, the full label of the output.
  The code extends the list by the string itself, that is by its characters: for the
  single output \<^verbatim>\<open>dir/f\<close> found under the target \<^verbatim>\<open>dir\<close> the result has five elements,
  one for each character.
\<close>

theorem collect_targets_extends_by_characters:
  "collect_targets dir_repo (Some ''dir'') True = Inr [''d'', ''i'', ''r'', ''/'', ''f'']"
  by (simp add: collect_targets_def dir_repo_def stage_train_def extend_str_def)

subsection \<open>Building with collapse\<close>

text \<open>
  C1. The claim: with collapse requested \<^verbatim>\<open>_build\<close> returns the collapse of the filtered
  graph, so that a node which the scope filter removed does not come back. The code
  collapses the unfiltered graph. In the project with the unrelated stages \<^verbatim>\<open>A\<close> and
  \<^verbatim>\<open>B\<close> and the target \<^verbatim>\<open>A\<close>, the filter keeps \<^verbatim>\<open>A\<close> alone, the collapse of that graph
  is that graph, and \<^verbatim>\<open>_build\<close> returns both \<^verbatim>\<open>A\<close> and \<^verbatim>\<open>B\<close>.
\<close>

theorem build_collapses_unfiltered_graph:
  "build two_stage_repo (Some ''A'') False False True
     = Inr \<lparr>nodes = [''A'', ''B''], edges = []\<rparr>
   \<and> collect_targets two_stage_repo (Some ''A'') False = Inr [''A'']
   \<and> filter_graph (transform (repo_index two_stage_repo) False) [''A''] False
     = Inr \<lparr>nodes = [''A''], edges = []\<rparr>
   \<and> collapse_graph \<lparr>nodes = [''A''], edges = []\<rparr> = Inr \<lparr>nodes = [''A''], edges = []\<rparr>"
  by code_simp

subsection \<open>The scope of a single target\<close>

text \<open>
  C4. For every well-formed label graph and every label \<open>T\<close> among its nodes, \<^verbatim>\<open>_filter\<close>
  with the single target \<open>T\<close> and \<^verbatim>\<open>full\<close> unset returns a graph, and the nodes of that
  graph are \<open>T\<close> with the descendants of \<open>T\<close>, intersected with the component of \<open>T\<close>
  in the undirected graph. The graph need not be acyclic for this.
\<close>

theorem filter_graph_single_target:
  assumes "wf_digraph g" and "T \<in> set (nodes g)"
  shows "\<exists>g' D C. filter_graph g [T] False = Inr g'
           \<and> descendants g T = Inr D
           \<and> node_connected_component (to_undirected g) T = Inr C
           \<and> set (nodes g') = (insert T D) \<inter> C"
proof -
  from filter_graph_single_nodes [OF assms] obtain g' where
    res: "filter_graph g [T] False = Inr g'" and N: "set (nodes g') = insert T (reachable g T)"
    by blast
  have d: "descendants g T = Inr (reachable g T - {T})"
    using assms(2) by (simp add: descendants_def)
  have c: "node_connected_component (to_undirected g) T = Inr (component_of (to_undirected g) T)"
    using assms(2) by (simp add: node_connected_component_def)
  have "insert T (reachable g T) \<subseteq> component_of (to_undirected g) T"
    using reachable_to_undirected [of g T] by (auto simp: component_of_def)
  then have "set (nodes g') = insert T (reachable g T - {T}) \<inter> component_of (to_undirected g) T"
    unfolding N by auto
  with res d c show ?thesis by blast
qed

theorem filter_graph_single_target_witness:
  "wf_digraph \<lparr>nodes = [''A'', ''B'', ''C'', ''D''], edges = [(''A'', ''B''), (''B'', ''C''), (''D'', ''C'')]\<rparr>
   \<and> ''B'' \<in> set (nodes \<lparr>nodes = [''A'', ''B'', ''C'', ''D''], edges = [(''A'', ''B''), (''B'', ''C''), (''D'', ''C'')]\<rparr>)
   \<and> (\<exists>g' D C. filter_graph \<lparr>nodes = [''A'', ''B'', ''C'', ''D''], edges = [(''A'', ''B''), (''B'', ''C''), (''D'', ''C'')]\<rparr> [''B''] False = Inr g'
           \<and> descendants \<lparr>nodes = [''A'', ''B'', ''C'', ''D''], edges = [(''A'', ''B''), (''B'', ''C''), (''D'', ''C'')]\<rparr> ''B'' = Inr D
           \<and> node_connected_component (to_undirected \<lparr>nodes = [''A'', ''B'', ''C'', ''D''], edges = [(''A'', ''B''), (''B'', ''C''), (''D'', ''C'')]\<rparr>) ''B'' = Inr C
           \<and> set (nodes g') = (insert ''B'' D) \<inter> C)"
proof -
  have h1: "wf_digraph \<lparr>nodes = [''A'', ''B'', ''C'', ''D''], edges = [(''A'', ''B''), (''B'', ''C''), (''D'', ''C'')]\<rparr>"
    by (simp add: wf_digraph_def)
  have h2: "''B'' \<in> set (nodes \<lparr>nodes = [''A'', ''B'', ''C'', ''D''], edges = [(''A'', ''B''), (''B'', ''C''), (''D'', ''C'')]\<rparr>)"
    by simp
  from filter_graph_single_target [OF h1 h2] h1 h2 show ?thesis by blast
qed

subsection \<open>Both renderers turn the edges around\<close>

text \<open>
  C6. For every well-formed label graph without an empty label and every edge from \<open>A\<close>
  to \<open>B\<close> in it (\<open>A\<close> depends on \<open>B\<close>): \<^verbatim>\<open>_show_dot\<close> returns the text that the writer
  makes of the reversed graph, and that graph has the edge from the quoted \<open>B\<close> to the
  quoted \<open>A\<close>; \<^verbatim>\<open>_show_mermaid\<close> returns a text that declares \<open>A\<close> and \<open>B\<close> and has the
  arrow line from the identifier of \<open>B\<close> to the identifier of \<open>A\<close>, with and without
  the markdown fence.
\<close>

theorem renderers_reverse_edges:
  assumes "wf_digraph g" and "[] \<notin> set (nodes g)" and "(A, B) \<in> set (edges g)"
  shows "(\<exists>g' qa qb. show_dot write_dot g = Inr (write_dot (reverse g'), g')
            \<and> quote_label A = Inr qa \<and> quote_label B = Inr qb
            \<and> (qb, qa) \<in> set (edges (reverse g')))
       \<and> (\<exists>res. show_mermaid g markdown = Inr res \<and> edge_shown A B res)"
  using show_dot_edge [OF assms] show_mermaid_edge [OF assms(1,3)] by blast

theorem renderers_reverse_edges_witness:
  "wf_digraph \<lparr>nodes = [''A'', ''B'', ''C''], edges = [(''A'', ''B'')]\<rparr>
   \<and> [] \<notin> set (nodes \<lparr>nodes = [''A'', ''B'', ''C''], edges = [(''A'', ''B'')]\<rparr>)
   \<and> (''A'', ''B'') \<in> set (edges \<lparr>nodes = [''A'', ''B'', ''C''], edges = [(''A'', ''B'')]\<rparr>)
   \<and> (\<exists>g' qa qb. show_dot edge_lines \<lparr>nodes = [''A'', ''B'', ''C''], edges = [(''A'', ''B'')]\<rparr>
                = Inr (edge_lines (reverse g'), g')
            \<and> quote_label ''A'' = Inr qa \<and> quote_label ''B'' = Inr qb
            \<and> (qb, qa) \<in> set (edges (reverse g')))
   \<and> (\<exists>res. show_mermaid \<lparr>nodes = [''A'', ''B'', ''C''], edges = [(''A'', ''B'')]\<rparr> False = Inr res
            \<and> edge_shown ''A'' ''B'' res)"
proof -
  have h1: "wf_digraph \<lparr>nodes = [''A'', ''B'', ''C''], edges = [(''A'', ''B'')]\<rparr>"
    by (simp add: wf_digraph_def)
  have h2: "[] \<notin> set (nodes \<lparr>nodes = [''A'', ''B'', ''C''], edges = [(''A'', ''B'')]\<rparr>)"
    by simp
  have h3: "(''A'', ''B'') \<in> set (edges \<lparr>nodes = [''A'', ''B'', ''C''], edges = [(''A'', ''B'')]\<rparr>)"
    by simp
  from renderers_reverse_edges [OF h1 h2 h3, of edge_lines False] h1 h2 h3
  show ?thesis by blast
qed

end
